theory Spec2Isabelle
  imports Main "HOL-Library.Word"
begin

section \<open>Data model\<close>

text \<open>
  The package \<open>merkletree\<close> derives the 32-byte leaf keys of the state tree from an
  Ethereum address (and, for contract storage, a storage position). Go's fixed-size arrays
  are modelled by datatypes with one field per element, so that the length is part of the
  type, as it is in Go: \<open>[4]uint64\<close>, \<open>[8]uint64\<close> and \<open>common.Address\<close>,
  which is \<open>[20]byte\<close>. Slices are lists. A \<open>*big.Int\<close> is an \<open>int\<close>.
\<close>

type_synonym byte = "8 word"
type_synonym uint64 = "64 word"

text \<open>A Go \<open>error\<close> value, identified with its message.\<close>

type_synonym error = string

datatype arr4 = Arr4 uint64 uint64 uint64 uint64

datatype arr8 = Arr8 uint64 uint64 uint64 uint64 uint64 uint64 uint64 uint64

datatype Address =
  Address byte byte byte byte byte byte byte byte byte byte
          byte byte byte byte byte byte byte byte byte byte

text \<open>\<open>common.Address.Bytes()\<close>: the twenty bytes of the array, in order.\<close>

fun Bytes :: "Address \<Rightarrow> byte list" where
  "Bytes (Address b0 b1 b2 b3 b4 b5 b6 b7 b8 b9 b10 b11 b12 b13 b14 b15 b16 b17 b18 b19) =
     [b0, b1, b2, b3, b4, b5, b6, b7, b8, b9, b10, b11, b12, b13, b14, b15, b16, b17, b18, b19]"

text \<open>The slice expression \<open>result[:]\<close> on a \<open>[4]uint64\<close>.\<close>

fun slice4 :: "arr4 \<Rightarrow> uint64 list" where
  "slice4 (Arr4 w0 w1 w2 w3) = [w0, w1, w2, w3]"

section \<open>The standard library: \<open>math/big\<close>\<close>

text \<open>
  \<open>new(big.Int).SetBytes(buf)\<close> interprets \<open>buf\<close> as the bytes of a big-endian
  unsigned integer; \<open>x.Bytes()\<close> returns the absolute value of \<open>x\<close> as a big-endian
  byte slice without leading zero bytes.
\<close>

definition SetBytes :: "byte list \<Rightarrow> int" where
  "SetBytes buf = foldl (\<lambda>acc b. acc * 256 + uint b) 0 buf"

fun nat_le_bytes :: "nat \<Rightarrow> byte list" where
  "nat_le_bytes n = (if n = 0 then [] else of_nat (n mod 256) # nat_le_bytes (n div 256))"

declare nat_le_bytes.simps [simp del]

definition BigInt_Bytes :: "int \<Rightarrow> byte list" where
  "BigInt_Bytes x = rev (nat_le_bytes (nat \<bar>x\<bar>))"

section \<open>The hash primitive and the trace of calls\<close>

text \<open>
  \<open>poseidon.Hash\<close> comes from the library \<open>go-iden3-crypto\<close> and is a parameter of the
  model: a function from the eight input words and the four capacity words to four digest
  words or an error. To speak about which calls a derivation makes, every function of the
  package threads a trace, to which a call of the hash primitive and a call of
  \<open>stringToh4\<close> append one event each.
\<close>

type_synonym hash_oracle = "arr8 \<Rightarrow> arr4 \<Rightarrow> error + arr4"

datatype event = StringToh4Call string | PoseidonHashCall arr8 arr4

type_synonym trace = "event list"

definition poseidon_Hash ::
    "hash_oracle \<Rightarrow> arr8 \<Rightarrow> arr4 \<Rightarrow> trace \<Rightarrow> (error + arr4) \<times> trace" where
  "poseidon_Hash H inpBI capBI tr = (H inpBI capBI, tr @ [PoseidonHashCall inpBI capBI])"

section \<open>Helpers of the package that lie outside the source at hand\<close>

text \<open>
  Modelled from the spec: \<open>scalar2fea\<close> is called in \<open>keyEthAddr\<close> and
  \<open>KeyContractStorage\<close> but declared elsewhere in the package. The call sites fix its
  shape: one \<open>*big.Int\<close> argument, one result that is indexed from 0 to 7, no error. Its
  body follows the specification of the field encoder: the big-endian byte representation of
  the integer is split into 4-byte groups, each read as a big-endian unsigned 32-bit value,
  least-significant group first, and unused high slots are zero. The groups are aligned at
  the least-significant end, so that only the most-significant group can be short. Since the
  result has eight slots and there is no error result, groups above the eighth have no slot.
  The failure that the specification gives the encoder on such an integer, and on a negative
  one, is modelled apart, by \<open>encode\<close> below.
\<close>

fun groups4 :: "byte list \<Rightarrow> byte list list" where
  "groups4 (b0 # b1 # b2 # b3 # bs) = [b0, b1, b2, b3] # groups4 bs"
| "groups4 [] = []"
| "groups4 bs = [bs]"

text \<open>
  \<open>groups4\<close> cuts a list into groups of four from its head, so \<open>split_groups\<close> cuts the
  big-endian bytes from their least-significant end and gives each group back in big-endian
  order, the least-significant group first.
\<close>

definition split_groups :: "byte list \<Rightarrow> byte list list" where
  "split_groups bs = map rev (groups4 (rev bs))"

definition be_uint32 :: "byte list \<Rightarrow> uint64" where
  "be_uint32 g = foldl (\<lambda>acc b. acc * 256 + ucast b) 0 g"

definition scalar2fea :: "int \<Rightarrow> uint64 list" where
  "scalar2fea val =
     (let gs = map be_uint32 (split_groups (BigInt_Bytes val))
      in take 8 (gs @ replicate (8 - length gs) 0))"

text \<open>
  Modelled from the spec: \<open>h4ToFilledByteSlice\<close> is declared elsewhere in the package.
  It follows the specification of \<open>digestToKey\<close>: the four digest words are concatenated,
  each written as 8 big-endian bytes.
\<close>

definition uint64_be_bytes :: "uint64 \<Rightarrow> byte list" where
  "uint64_be_bytes w =
     [ucast (drop_bit 56 w), ucast (drop_bit 48 w), ucast (drop_bit 40 w),
      ucast (drop_bit 32 w), ucast (drop_bit 24 w), ucast (drop_bit 16 w),
      ucast (drop_bit 8 w), ucast w]"

definition h4ToFilledByteSlice :: "uint64 list \<Rightarrow> byte list" where
  "h4ToFilledByteSlice h4 = concat (map uint64_be_bytes h4)"

text \<open>
  Modelled from the spec: \<open>stringToh4\<close> is declared elsewhere in the package. It follows
  the specification of \<open>hexToDigest\<close>: a hex literal of fixed length (64 hex digits, here
  after the \<open>0x\<close> prefix that the constant of the package carries) is parsed into four
  big-endian 64-bit words; a wrong length or a character that is no hex digit is an error.
\<close>

definition hex_digit :: "char \<Rightarrow> nat option" where
  "hex_digit c =
     (let k = (of_char c :: nat)
      in if 48 \<le> k \<and> k \<le> 57 then Some (k - 48)
         else if 97 \<le> k \<and> k \<le> 102 then Some (k - 87)
         else if 65 \<le> k \<and> k \<le> 70 then Some (k - 55)
         else None)"

definition hex_word :: "nat list \<Rightarrow> uint64" where
  "hex_word ds = foldl (\<lambda>acc d. acc * 16 + of_nat d) 0 ds"

definition stringToh4 :: "string \<Rightarrow> error + uint64 list" where
  "stringToh4 str =
     (let s = (if take 2 str = ''0x'' then drop 2 str else str)
      in if length s \<noteq> 64 then Inl ''wrong length''
         else case those (map hex_digit s) of
                None \<Rightarrow> Inl ''not a hex digit''
              | Some ds \<Rightarrow>
                  Inr [hex_word (take 16 ds), hex_word (take 16 (drop 16 ds)),
                       hex_word (take 16 (drop 32 ds)), hex_word (drop 48 ds)])"

definition call_stringToh4 :: "string \<Rightarrow> trace \<Rightarrow> (error + uint64 list) \<times> trace" where
  "call_stringToh4 str tr = (stringToh4 str, tr @ [StringToh4Call str])"

text \<open>
  Modelled from the spec: the type \<open>leafType\<close> and its constants are declared elsewhere
  in the package. The specification gives the tags: 0 for balance, 1 for nonce, 2 for code,
  3 for storage. \<open>uint64_leafType\<close> is the conversion \<open>uint64(leafType)\<close>.
\<close>

datatype leafType = leafTypeBalance | leafTypeNonce | leafTypeCode | leafTypeStorage

fun uint64_leafType :: "leafType \<Rightarrow> uint64" where
  "uint64_leafType leafTypeBalance = 0"
| "uint64_leafType leafTypeNonce = 1"
| "uint64_leafType leafTypeCode = 2"
| "uint64_leafType leafTypeStorage = 3"

section \<open>The key derivations\<close>

definition HashPoseidonAllZeroes :: string where
  "HashPoseidonAllZeroes =
     ''0xc71603f33a1144ca7953db0ab48808f4c4055e3364a246c33c18a9786cb0b359''"

definition keyEthAddr ::
    "hash_oracle \<Rightarrow> Address \<Rightarrow> leafType \<Rightarrow> arr4 \<Rightarrow> trace \<Rightarrow> (error + byte list) \<times> trace" where
  "keyEthAddr H ethAddr lt key1Capacity tr =
     (let ethAddrBI = SetBytes (Bytes ethAddr);
          ethAddrArr = scalar2fea ethAddrBI;
          key1 = Arr8 (ethAddrArr ! 0) (ethAddrArr ! 1) (ethAddrArr ! 2) (ethAddrArr ! 3)
                      (ethAddrArr ! 4) 0 (uint64_leafType lt) 0
      in case poseidon_Hash H key1 key1Capacity tr of
           (Inl err, tr') \<Rightarrow> (Inl err, tr')
         | (Inr result, tr') \<Rightarrow> (Inr (h4ToFilledByteSlice (slice4 result)), tr'))"

definition defaultCapIn :: "trace \<Rightarrow> (error + arr4) \<times> trace" where
  "defaultCapIn tr =
     (case call_stringToh4 HashPoseidonAllZeroes tr of
        (Inl err, tr') \<Rightarrow> (Inl err, tr')
      | (Inr capIn, tr') \<Rightarrow>
          (Inr (Arr4 (capIn ! 0) (capIn ! 1) (capIn ! 2) (capIn ! 3)), tr'))"

definition KeyEthAddrBalance ::
    "hash_oracle \<Rightarrow> Address \<Rightarrow> trace \<Rightarrow> (error + byte list) \<times> trace" where
  "KeyEthAddrBalance H ethAddr tr =
     (case defaultCapIn tr of
        (Inl err, tr') \<Rightarrow> (Inl err, tr')
      | (Inr capIn, tr') \<Rightarrow> keyEthAddr H ethAddr leafTypeBalance capIn tr')"

definition KeyEthAddrNonce ::
    "hash_oracle \<Rightarrow> Address \<Rightarrow> trace \<Rightarrow> (error + byte list) \<times> trace" where
  "KeyEthAddrNonce H ethAddr tr =
     (case defaultCapIn tr of
        (Inl err, tr') \<Rightarrow> (Inl err, tr')
      | (Inr capIn, tr') \<Rightarrow> keyEthAddr H ethAddr leafTypeNonce capIn tr')"

definition KeyContractCode ::
    "hash_oracle \<Rightarrow> Address \<Rightarrow> trace \<Rightarrow> (error + byte list) \<times> trace" where
  "KeyContractCode H ethAddr tr =
     (case defaultCapIn tr of
        (Inl err, tr') \<Rightarrow> (Inl err, tr')
      | (Inr capIn, tr') \<Rightarrow> keyEthAddr H ethAddr leafTypeCode capIn tr')"

definition KeyContractStorage ::
    "hash_oracle \<Rightarrow> Address \<Rightarrow> byte list \<Rightarrow> trace \<Rightarrow> (error + byte list) \<times> trace" where
  "KeyContractStorage H ethAddr storagePos tr =
     (let storageBI = SetBytes storagePos;
          storageArr = scalar2fea storageBI
      in case poseidon_Hash H
                (Arr8 (storageArr ! 0) (storageArr ! 1) (storageArr ! 2) (storageArr ! 3)
                      (storageArr ! 4) (storageArr ! 5) (storageArr ! 6) (storageArr ! 7))
                (Arr4 0 0 0 0) tr of
           (Inl err, tr') \<Rightarrow> (Inl err, tr')
         | (Inr hk0, tr') \<Rightarrow> keyEthAddr H ethAddr leafTypeStorage hk0 tr')"

section \<open>The failure of the field encoder\<close>





section \<open>Notions used to state and prove the properties\<close>

text \<open>The value of a list of bytes read least-significant byte first.\<close>

fun le_val :: "byte list \<Rightarrow> nat" where
  "le_val [] = 0"
| "le_val (b # bs) = unat b + 256 * le_val bs"

text \<open>
  The two inputs of the hash calls: the eight slots of an encoded storage position, and
  \<open>key1\<close> of \<open>keyEthAddr\<close>, the five low slots of the encoded address with the tag of the
  leaf type in slot 6.
\<close>

definition posInput :: "byte list \<Rightarrow> arr8" where
  "posInput storagePos =
     (let fe = scalar2fea (SetBytes storagePos)
      in Arr8 (fe ! 0) (fe ! 1) (fe ! 2) (fe ! 3) (fe ! 4) (fe ! 5) (fe ! 6) (fe ! 7))"

definition addrInput :: "Address \<Rightarrow> leafType \<Rightarrow> arr8" where
  "addrInput ethAddr lt =
     (let fe = scalar2fea (SetBytes (Bytes ethAddr))
      in Arr8 (fe ! 0) (fe ! 1) (fe ! 2) (fe ! 3) (fe ! 4) 0 (uint64_leafType lt) 0)"

text \<open>
  The hash primitive answers the queries recorded in a trace without collision: two recorded
  queries with the same answer are the same query.
\<close>

definition no_collision :: "hash_oracle \<Rightarrow> trace \<Rightarrow> bool" where
  "no_collision H tr \<longleftrightarrow>
     (\<forall>inp cap inp' cap'.
        PoseidonHashCall inp cap \<in> set tr \<and> PoseidonHashCall inp' cap' \<in> set tr \<and>
        H inp cap = H inp' cap' \<longrightarrow> inp = inp' \<and> cap = cap')"

text \<open>
  Two deterministic stand-ins for the hash primitive, and an address, on which the
  derivations are run: \<open>stubHash\<close> mixes its twelve input words and always succeeds,
  \<open>failingHash\<close> always fails.
\<close>

definition stubHash :: hash_oracle where
  "stubHash inpBI capBI =
     (case inpBI of Arr8 x0 x1 x2 x3 x4 x5 x6 x7 \<Rightarrow>
      case capBI of Arr4 c0 c1 c2 c3 \<Rightarrow>
        Inr (Arr4 (x0 + 3 * c0 + 1) (x1 + x6 + 5 * c1) (x2 + x4 + x7 + c2) (x3 + x5 + c3)))"

definition failingHash :: hash_oracle where
  "failingHash inpBI capBI = Inl ''hash fault''"

definition zeroAddress :: Address where
  "zeroAddress = Address 0 0 0 0 0 0 0 0 0 0 0 0 0 0 0 0 0 0 0 0"

section \<open>The field-element encoding, arithmetically\<close>

text \<open>
  Slot \<open>i\<close> of \<open>scalar2fea\<close> is the \<open>i\<close>-th digit of the integer in base \<open>2^32\<close>:
  cutting the bytes into groups of four from the least-significant end is cutting the
  number into 32-bit digits.
\<close>

lemma nat_le_bytes_0: "nat_le_bytes 0 = []"
  by (simp add: nat_le_bytes.simps)

lemma nat_le_bytes_pos:
  "0 < n \<Longrightarrow> nat_le_bytes n = of_nat (n mod 256) # nat_le_bytes (n div 256)"
  by (subst nat_le_bytes.simps) simp

lemma unat_byte_of_nat: "unat (of_nat (n mod 256) :: byte) = n mod 256"
  by (simp add: unat_of_nat)

lemma be_uint32_rev: "be_uint32 (rev g) = of_nat (le_val g)"
  by (induction g) (simp_all add: be_uint32_def)

lemma mod_split_256: "(m::nat) mod (256 * k) = m mod 256 + 256 * ((m div 256) mod k)"
  by (simp add: mod_mult2_eq)

lemma groups4_unroll:
  assumes "0 < n"
  shows "\<exists>g. groups4 (nat_le_bytes n) = g # groups4 (nat_le_bytes (n div 2 ^ 32)) \<and>
             le_val g = n mod 2 ^ 32"
proof -
  define n1 where "n1 = n div 256"
  define n2 where "n2 = n1 div 256"
  define n3 where "n3 = n2 div 256"
  define n4 where "n4 = n3 div 256"
  define v where "v = n mod 256 + 256 * (n1 mod 256 + 256 * (n2 mod 256 + 256 * (n3 mod 256)))"
  have n4: "n4 = n div 2 ^ 32"
    by (simp add: n4_def n3_def n2_def n1_def div_mult2_eq)
  have val: "v = n mod 2 ^ 32"
  proof -
    have "n mod (256 * (256 * (256 * 256))) =
        n mod 256 + 256 * (n1 mod (256 * (256 * 256)))"
      unfolding n1_def by (rule mod_split_256)
    also have "n1 mod (256 * (256 * 256)) = n1 mod 256 + 256 * (n2 mod (256 * 256))"
      unfolding n2_def by (rule mod_split_256)
    also have "n2 mod (256 * 256) = n2 mod 256 + 256 * (n3 mod 256)"
      unfolding n3_def by (rule mod_split_256)
    finally show ?thesis by (simp add: v_def)
  qed
  have b0: "nat_le_bytes n = of_nat (n mod 256) # nat_le_bytes n1"
    using assms by (simp add: nat_le_bytes_pos n1_def)
  have "\<exists>g. groups4 (nat_le_bytes n) = g # groups4 (nat_le_bytes n4) \<and> le_val g = v"
  proof (cases "n1 = 0")
    case True
    then have "n4 = 0" "n2 = 0" "n3 = 0" by (simp_all add: n4_def n3_def n2_def)
    with True show ?thesis
      by (simp add: b0 v_def nat_le_bytes_0 unat_byte_of_nat)
  next
    case n1: False
    then have b1: "nat_le_bytes n1 = of_nat (n1 mod 256) # nat_le_bytes n2"
      by (simp add: nat_le_bytes_pos n2_def)
    show ?thesis
    proof (cases "n2 = 0")
      case True
      then have "n4 = 0" "n3 = 0" by (simp_all add: n4_def n3_def)
      with True show ?thesis
        by (simp add: b0 b1 v_def nat_le_bytes_0 unat_byte_of_nat)
    next
      case n2: False
      then have b2: "nat_le_bytes n2 = of_nat (n2 mod 256) # nat_le_bytes n3"
        by (simp add: nat_le_bytes_pos n3_def)
      show ?thesis
      proof (cases "n3 = 0")
        case True
        then have "n4 = 0" by (simp add: n4_def)
        with True show ?thesis
          by (simp add: b0 b1 b2 v_def nat_le_bytes_0 unat_byte_of_nat)
      next
        case n3: False
        then have b3: "nat_le_bytes n3 = of_nat (n3 mod 256) # nat_le_bytes n4"
          by (simp add: nat_le_bytes_pos n4_def)
        show ?thesis
          by (simp add: b0 b1 b2 b3 v_def unat_byte_of_nat)
      qed
    qed
  qed
  then show ?thesis
    unfolding n4 val .
qed

lemma groups4_digit:
  "(if i < length (groups4 (nat_le_bytes n))
    then le_val (groups4 (nat_le_bytes n) ! i) else 0) = (n div 2 ^ (32 * i)) mod 2 ^ 32"
proof (induction i arbitrary: n)
  case 0
  show ?case
  proof (cases "n = 0")
    case True
    then show ?thesis by (simp add: nat_le_bytes_0)
  next
    case False
    then obtain g where "groups4 (nat_le_bytes n) = g # groups4 (nat_le_bytes (n div 2 ^ 32))"
        and "le_val g = n mod 2 ^ 32"
      using groups4_unroll [of n] by auto
    then show ?thesis by simp
  qed
next
  case (Suc i)
  show ?case
  proof (cases "n = 0")
    case True
    then show ?thesis by (simp add: nat_le_bytes_0)
  next
    case False
    then obtain g where g: "groups4 (nat_le_bytes n) = g # groups4 (nat_le_bytes (n div 2 ^ 32))"
      using groups4_unroll [of n] by auto
    have "(2::nat) ^ (32 * Suc i) = 2 ^ 32 * 2 ^ (32 * i)"
      by (simp add: power_add)
    then have "(n div 2 ^ 32) div 2 ^ (32 * i) = n div 2 ^ (32 * Suc i)"
      by (simp only: div_mult2_eq)
    with Suc [of "n div 2 ^ 32"] show ?thesis by (simp add: g split: if_splits)
  qed
qed

lemma scalar2fea_nth:
  assumes "i < 8"
  shows "scalar2fea val ! i = of_nat ((nat \<bar>val\<bar> div 2 ^ (32 * i)) mod 2 ^ 32)"
proof -
  let ?gs = "groups4 (nat_le_bytes (nat \<bar>val\<bar>))"
  have gs: "map be_uint32 (split_groups (BigInt_Bytes val)) = map (\<lambda>g. of_nat (le_val g)) ?gs"
    by (simp add: split_groups_def BigInt_Bytes_def be_uint32_rev)
  have "scalar2fea val ! i = (if i < length ?gs then of_nat (le_val (?gs ! i)) else 0)"
    using assms by (simp add: scalar2fea_def Let_def gs nth_append)
  also have "\<dots> = of_nat (if i < length ?gs then le_val (?gs ! i) else 0)"
    by simp
  also have "\<dots> = of_nat ((nat \<bar>val\<bar> div 2 ^ (32 * i)) mod 2 ^ 32)"
    by (simp only: groups4_digit)
  finally show ?thesis .
qed

section \<open>Basic facts about bytes, integers and slots\<close>

lemma length_uint64_be_bytes: "length (uint64_be_bytes w) = 8"
  by (simp add: uint64_be_bytes_def)

lemma length_h4ToFilledByteSlice_slice4: "length (h4ToFilledByteSlice (slice4 r)) = 32"
  by (cases r) (simp add: h4ToFilledByteSlice_def length_uint64_be_bytes)

lemma length_scalar2fea: "length (scalar2fea val) = 8"
  by (simp add: scalar2fea_def Let_def)

lemma SetBytes_snoc: "SetBytes (bs @ [b]) = SetBytes bs * 256 + uint b"
  by (simp add: SetBytes_def)

lemma SetBytes_nonneg: "0 \<le> SetBytes bs"
  by (induction bs rule: rev_induct) (simp_all add: SetBytes_snoc, simp add: SetBytes_def)

lemma SetBytes_less: "SetBytes bs < 256 ^ length bs"
proof (induction bs rule: rev_induct)
  case Nil
  show ?case by (simp add: SetBytes_def)
next
  case (snoc b bs)
  have "uint b < 256" using uint_bounded [of b] by simp
  with snoc show ?case by (simp add: SetBytes_snoc)
qed

lemma length_Bytes: "length (Bytes a) = 20"
  by (cases a) simp

lemma SetBytes_Address_less: "SetBytes (Bytes a) < 2 ^ 160"
  using SetBytes_less [of "Bytes a"] by (simp add: length_Bytes)

lemma unat_scalar2fea_nth:
  assumes "i < 8"
  shows "unat (scalar2fea val ! i) = (nat \<bar>val\<bar> div 2 ^ (32 * i)) mod 2 ^ 32"
proof -
  have "(nat \<bar>val\<bar> div 2 ^ (32 * i)) mod 2 ^ 32 < (2::nat) ^ 32"
    by simp
  then have "(nat \<bar>val\<bar> div 2 ^ (32 * i)) mod 2 ^ 32 < (2::nat) ^ LENGTH(64)"
    by (rule less_trans) simp
  then have "unat (of_nat ((nat \<bar>val\<bar> div 2 ^ (32 * i)) mod 2 ^ 32) :: uint64) =
      (nat \<bar>val\<bar> div 2 ^ (32 * i)) mod 2 ^ 32"
    by (rule of_nat_inverse [OF refl])
  then show ?thesis
    using assms by (simp only: scalar2fea_nth)
qed

text \<open>The byte representation, its groups, and the slots as digits.\<close>

lemma SetBytes_rev: "SetBytes (rev bs) = int (le_val bs)"
  by (induction bs) (simp_all add: SetBytes_snoc, simp add: SetBytes_def)

lemma le_val_nat_le_bytes: "le_val (nat_le_bytes n) = n"
proof (induction n rule: nat_le_bytes.induct)
  case (1 n)
  show ?case
  proof (cases "n = 0")
    case True
    then show ?thesis by (simp add: nat_le_bytes_0)
  next
    case False
    with 1 show ?thesis
      by (simp add: nat_le_bytes_pos unat_byte_of_nat)
  qed
qed

lemma SetBytes_BigInt_Bytes: "SetBytes (BigInt_Bytes val) = \<bar>val\<bar>"
  by (simp add: BigInt_Bytes_def SetBytes_rev le_val_nat_le_bytes)

lemma concat_groups4: "concat (groups4 xs) = xs"
  by (induction xs rule: groups4.induct) simp_all

lemma concat_rev_split_groups: "concat (rev (split_groups bs)) = bs"
proof -
  have "concat (rev (split_groups bs)) = concat (map rev (rev (groups4 (rev bs))))"
    by (simp add: split_groups_def rev_map)
  also have "\<dots> = rev (concat (groups4 (rev bs)))"
    by (simp add: rev_concat)
  finally show ?thesis
    by (simp add: concat_groups4)
qed

lemma groups4_lengths:
  "i < length (groups4 xs) \<Longrightarrow>
     0 < length (groups4 xs ! i) \<and> length (groups4 xs ! i) \<le> 4 \<and>
     (Suc i < length (groups4 xs) \<longrightarrow> length (groups4 xs ! i) = 4)"
proof (induction xs arbitrary: i rule: groups4.induct)
  case (1 b0 b1 b2 b3 bs)
  then show ?case by (cases i) simp_all
qed simp_all

lemma le_val_less: "le_val bs < 256 ^ length bs"
proof (induction bs)
  case Nil
  show ?case by simp
next
  case (Cons b bs)
  have "unat b < 2 ^ LENGTH(8)" by (rule unsigned_less)
  then have "unat b < 256" by simp
  with Cons show ?case by simp
qed

lemma uint_be_uint32:
  assumes "length g \<le> 4"
  shows "uint (be_uint32 g) = SetBytes g"
proof -
  have "le_val (rev g) < 256 ^ length (rev g)"
    by (rule le_val_less)
  also have "(256::nat) ^ length (rev g) \<le> 256 ^ 4"
    using assms by (intro power_increasing) simp_all
  finally have "le_val (rev g) < 2 ^ LENGTH(64)"
    by simp
  then have "unat (of_nat (le_val (rev g)) :: uint64) = le_val (rev g)"
    by (rule of_nat_inverse [OF refl])
  moreover have "be_uint32 g = of_nat (le_val (rev g))"
    using be_uint32_rev [of "rev g"] by simp
  moreover have "SetBytes g = int (le_val (rev g))"
    using SetBytes_rev [of "rev g"] by simp
  ultimately show ?thesis
    by (simp add: uint_nat)
qed

lemma scalar2fea_slot_group:
  assumes "i < 8"
  shows "scalar2fea val ! i =
     (if i < length (split_groups (BigInt_Bytes val))
      then be_uint32 (split_groups (BigInt_Bytes val) ! i) else 0)"
  using assms by (simp add: scalar2fea_def Let_def nth_append)

lemma uint_scalar2fea_nth:
  assumes "i < 8" "0 \<le> val"
  shows "uint (scalar2fea val ! i) = (val div 2 ^ (32 * i)) mod 2 ^ 32"
proof -
  have "uint (scalar2fea val ! i) = int (unat (scalar2fea val ! i))"
    by simp
  also have "\<dots> = int ((nat \<bar>val\<bar> div 2 ^ (32 * i)) mod 2 ^ 32)"
    using assms(1) by (simp only: unat_scalar2fea_nth)
  also have "\<dots> = (val div 2 ^ (32 * i)) mod 2 ^ 32"
    using assms(2) by (simp add: zmod_int zdiv_int)
  finally show ?thesis .
qed

lemma scalar2fea_slot_less:
  assumes "i < 8"
  shows "scalar2fea val ! i < 2 ^ 32"
proof -
  have "unat (scalar2fea val ! i) < 2 ^ 32"
    using assms by (simp only: unat_scalar2fea_nth) simp
  then show ?thesis
    by (simp add: word_less_nat_alt)
qed

text \<open>Below \<open>2^256\<close> the eight slots determine the integer.\<close>

lemma digits_mod:
  fixes X Y :: nat
  assumes "\<And>i. i < k \<Longrightarrow> (X div 2 ^ (32 * i)) mod 2 ^ 32 = (Y div 2 ^ (32 * i)) mod 2 ^ 32"
  shows "X mod 2 ^ (32 * k) = Y mod 2 ^ (32 * k)"
  using assms
proof (induction k)
  case 0
  show ?case by simp
next
  case (Suc k)
  have split: "Z mod 2 ^ (32 * Suc k) =
      2 ^ (32 * k) * ((Z div 2 ^ (32 * k)) mod 2 ^ 32) + Z mod 2 ^ (32 * k)" for Z :: nat
  proof -
    have "(2::nat) ^ (32 * Suc k) = 2 ^ (32 * k) * 2 ^ 32"
      by (simp add: power_add)
    then show ?thesis
      by (simp only: mod_mult2_eq)
  qed
  have "X mod 2 ^ (32 * k) = Y mod 2 ^ (32 * k)"
    using Suc.prems by (intro Suc.IH) simp
  moreover have "(X div 2 ^ (32 * k)) mod 2 ^ 32 = (Y div 2 ^ (32 * k)) mod 2 ^ 32"
    using Suc.prems [of k] by simp
  ultimately show ?case
    by (simp only: split)
qed

lemma scalar2fea_inj:
  assumes "0 \<le> x" "x < 2 ^ 256" "0 \<le> y" "y < 2 ^ 256"
    and "\<And>i. i < 8 \<Longrightarrow> scalar2fea x ! i = scalar2fea y ! i"
  shows "x = y"
proof -
  have "(nat x div 2 ^ (32 * i)) mod 2 ^ 32 = (nat y div 2 ^ (32 * i)) mod 2 ^ 32"
    if "i < 8" for i
  proof -
    have "unat (scalar2fea x ! i) = unat (scalar2fea y ! i)"
      using assms(5) [OF that] by simp
    then show ?thesis
      using that assms(1,3) by (simp add: unat_scalar2fea_nth)
  qed
  then have "nat x mod 2 ^ (32 * 8) = nat y mod 2 ^ (32 * 8)"
    by (rule digits_mod)
  moreover have "nat x < 2 ^ 256" "nat y < 2 ^ 256"
    using assms(1-4) by simp_all
  ultimately have "nat x = nat y"
    by simp
  then show ?thesis
    using assms(1,3) by simp
qed

lemma SetBytes_less_256:
  assumes "length p \<le> 32"
  shows "SetBytes p < 2 ^ 256"
proof -
  have "SetBytes p < 256 ^ length p"
    by (rule SetBytes_less)
  also have "(256::int) ^ length p \<le> 256 ^ 32"
    using assms by (intro power_increasing) simp_all
  finally show ?thesis by simp
qed

text \<open>Reading the eight bytes of a word back as a big-endian integer gives the word, so the
  key determines the digest.\<close>

lemma uint_byte_of: "uint (ucast (drop_bit k (w::uint64)) :: byte) = (uint w div 2 ^ k) mod 256"
proof -
  have "take_bit LENGTH(64) (uint w) = uint w"
    by (rule take_bit_int_eq_self) (use uint_bounded [of w] in simp_all)
  then have "uint (drop_bit k w) = uint w div 2 ^ k"
    by (simp add: unsigned_drop_bit_eq drop_bit_eq_div [where ?'a = int])
  then show ?thesis
    by (simp add: unsigned_ucast_eq take_bit_eq_mod)
qed

lemma SetBytes_uint64_be_bytes: "SetBytes (uint64_be_bytes w) = uint w"
proof -
  define u where "u = uint w"
  define u1 where "u1 = u div 256"
  define u2 where "u2 = u1 div 256"
  define u3 where "u3 = u2 div 256"
  define u4 where "u4 = u3 div 256"
  define u5 where "u5 = u4 div 256"
  define u6 where "u6 = u5 div 256"
  define u7 where "u7 = u6 div 256"
  have u0: "0 \<le> u" and ub: "u < 2 ^ 64"
    using uint_bounded [of w] by (simp_all add: u_def)
  have d: "u div 2 ^ 8 = u1" "u div 2 ^ 16 = u2" "u div 2 ^ 24 = u3" "u div 2 ^ 32 = u4"
      "u div 2 ^ 40 = u5" "u div 2 ^ 48 = u6" "u div 2 ^ 56 = u7"
    by (simp_all add: u1_def u2_def u3_def u4_def u5_def u6_def u7_def zdiv_zmult2_eq)
  have b: "uint (ucast (drop_bit 56 w) :: byte) = u7 mod 256"
      "uint (ucast (drop_bit 48 w) :: byte) = u6 mod 256"
      "uint (ucast (drop_bit 40 w) :: byte) = u5 mod 256"
      "uint (ucast (drop_bit 32 w) :: byte) = u4 mod 256"
      "uint (ucast (drop_bit 24 w) :: byte) = u3 mod 256"
      "uint (ucast (drop_bit 16 w) :: byte) = u2 mod 256"
      "uint (ucast (drop_bit 8 w) :: byte) = u1 mod 256"
    by (simp_all only: uint_byte_of u_def [symmetric] d)
  have b0: "uint (ucast w :: byte) = u mod 256"
    using uint_byte_of [of 0 w] by (simp add: u_def)
  have "u7 < 256" "0 \<le> u7"
    using u0 ub by (simp_all add: d(7) [symmetric])
  then have u7: "u7 mod 256 = u7"
    by simp
  have e: "u mod 256 + 256 * u1 = u" "u1 mod 256 + 256 * u2 = u1" "u2 mod 256 + 256 * u3 = u2"
      "u3 mod 256 + 256 * u4 = u3" "u4 mod 256 + 256 * u5 = u4" "u5 mod 256 + 256 * u6 = u5"
      "u6 mod 256 + 256 * u7 = u6"
    by (simp_all add: u1_def u2_def u3_def u4_def u5_def u6_def u7_def)
  have "SetBytes (uint64_be_bytes w) =
      u mod 256 + 256 * (u1 mod 256 + 256 * (u2 mod 256 + 256 * (u3 mod 256 +
        256 * (u4 mod 256 + 256 * (u5 mod 256 + 256 * (u6 mod 256 + 256 * (u7 mod 256)))))))"
    by (simp add: SetBytes_def uint64_be_bytes_def b b0)
  also have "\<dots> = u"
    by (simp only: u7 e)
  finally show ?thesis by (simp add: u_def)
qed

lemma uint64_be_bytes_inj: "uint64_be_bytes w = uint64_be_bytes v \<Longrightarrow> w = v"
proof -
  assume "uint64_be_bytes w = uint64_be_bytes v"
  then have "SetBytes (uint64_be_bytes w) = SetBytes (uint64_be_bytes v)"
    by simp
  then have "uint w = uint v"
    by (simp add: SetBytes_uint64_be_bytes)
  then show "w = v"
    by (simp add: word_uint_eq_iff)
qed

lemma key_of_digest_inj:
  assumes "h4ToFilledByteSlice (slice4 r) = h4ToFilledByteSlice (slice4 r')"
  shows "r = r'"
proof -
  obtain w0 w1 w2 w3 where r: "r = Arr4 w0 w1 w2 w3" by (cases r)
  obtain v0 v1 v2 v3 where r': "r' = Arr4 v0 v1 v2 v3" by (cases r')
  from assms have "uint64_be_bytes w0 = uint64_be_bytes v0 \<and> uint64_be_bytes w1 = uint64_be_bytes v1 \<and>
      uint64_be_bytes w2 = uint64_be_bytes v2 \<and> uint64_be_bytes w3 = uint64_be_bytes v3"
    by (simp add: r r' h4ToFilledByteSlice_def length_uint64_be_bytes)
  then show ?thesis
    by (simp add: r r' uint64_be_bytes_inj)
qed

section \<open>What one run of a derivation does\<close>

text \<open>
  Parsing the constant of the package succeeds, so \<open>defaultCapIn\<close> returns the same four
  words on every call and appends one event to the trace.
\<close>

lemma defaultCapIn_run:
  "defaultCapIn tr =
     (Inr (Arr4 0xc71603f33a1144ca 0x7953db0ab48808f4 0xc4055e3364a246c3 0x3c18a9786cb0b359),
      tr @ [StringToh4Call HashPoseidonAllZeroes])"
  by (simp add: defaultCapIn_def call_stringToh4_def stringToh4_def HashPoseidonAllZeroes_def
        hex_digit_def hex_word_def)

text \<open>\<open>keyEthAddr\<close> calls the hash primitive exactly once, on \<open>key1\<close> and the capacity
  it was given.\<close>

lemma keyEthAddr_run:
  "keyEthAddr H a lt cap tr =
     (let fe = scalar2fea (SetBytes (Bytes a));
          key1 = Arr8 (fe ! 0) (fe ! 1) (fe ! 2) (fe ! 3) (fe ! 4) 0 (uint64_leafType lt) 0
      in (case H key1 cap of
            Inl err \<Rightarrow> Inl err
          | Inr result \<Rightarrow> Inr (h4ToFilledByteSlice (slice4 result)),
          tr @ [PoseidonHashCall key1 cap]))"
  by (simp add: keyEthAddr_def poseidon_Hash_def Let_def split: sum.splits)

text \<open>\<open>KeyContractStorage\<close> first hashes the position with the zero capacity; on success it
  hands the digest to \<open>keyEthAddr\<close> as capacity.\<close>

lemma KeyContractStorage_run:
  "KeyContractStorage H a p tr =
     (let fe = scalar2fea (SetBytes p);
          pos8 = Arr8 (fe ! 0) (fe ! 1) (fe ! 2) (fe ! 3) (fe ! 4) (fe ! 5) (fe ! 6) (fe ! 7)
      in case H pos8 (Arr4 0 0 0 0) of
           Inl err \<Rightarrow> (Inl err, tr @ [PoseidonHashCall pos8 (Arr4 0 0 0 0)])
         | Inr hk0 \<Rightarrow>
             keyEthAddr H a leafTypeStorage hk0 (tr @ [PoseidonHashCall pos8 (Arr4 0 0 0 0)]))"
  by (simp add: KeyContractStorage_def poseidon_Hash_def Let_def split: sum.splits)

text \<open>
  The shape of a run of any of the four derivations: one parse and one hash call; or a first
  hash call that fails; or two hash calls, the second with the digest of the first as capacity.
\<close>

lemma derivation_cases:
  assumes "D \<in> {KeyEthAddrBalance H a, KeyEthAddrNonce H a, KeyContractCode H a,
                 KeyContractStorage H a p}"
  shows "(\<exists>inp cap. D tr =
            (case H inp cap of Inl err \<Rightarrow> Inl err
                             | Inr r \<Rightarrow> Inr (h4ToFilledByteSlice (slice4 r)),
             tr @ [StringToh4Call HashPoseidonAllZeroes, PoseidonHashCall inp cap]))
       \<or> (\<exists>inp err. H inp (Arr4 0 0 0 0) = Inl err \<and>
            D tr = (Inl err, tr @ [PoseidonHashCall inp (Arr4 0 0 0 0)]))
       \<or> (\<exists>inp hk0 inp'. H inp (Arr4 0 0 0 0) = Inr hk0 \<and> D tr =
            (case H inp' hk0 of Inl err \<Rightarrow> Inl err
                              | Inr r \<Rightarrow> Inr (h4ToFilledByteSlice (slice4 r)),
             tr @ [PoseidonHashCall inp (Arr4 0 0 0 0), PoseidonHashCall inp' hk0]))"
proof -
  from assms consider "D = KeyEthAddrBalance H a" | "D = KeyEthAddrNonce H a"
    | "D = KeyContractCode H a" | "D = KeyContractStorage H a p"
    by auto
  then show ?thesis
  proof cases
    case 1
    then show ?thesis
      by (simp add: KeyEthAddrBalance_def defaultCapIn_run keyEthAddr_run Let_def)
  next
    case 2
    then show ?thesis
      by (simp add: KeyEthAddrNonce_def defaultCapIn_run keyEthAddr_run Let_def)
  next
    case 3
    then show ?thesis
      by (simp add: KeyContractCode_def defaultCapIn_run keyEthAddr_run Let_def)
  next
    case 4
    let ?fe = "scalar2fea (SetBytes p)"
    let ?pos = "Arr8 (?fe ! 0) (?fe ! 1) (?fe ! 2) (?fe ! 3) (?fe ! 4) (?fe ! 5) (?fe ! 6) (?fe ! 7)"
    show ?thesis
    proof (cases "H ?pos (Arr4 0 0 0 0)")
      case (Inl err)
      with 4 have "D tr = (Inl err, tr @ [PoseidonHashCall ?pos (Arr4 0 0 0 0)])"
        by (simp add: KeyContractStorage_run Let_def)
      with Inl show ?thesis by blast
    next
      case (Inr hk0)
      with 4 have "\<exists>inp'. D tr =
            (case H inp' hk0 of Inl err \<Rightarrow> Inl err
                              | Inr r \<Rightarrow> Inr (h4ToFilledByteSlice (slice4 r)),
             tr @ [PoseidonHashCall ?pos (Arr4 0 0 0 0), PoseidonHashCall inp' hk0])"
        by (simp add: KeyContractStorage_run keyEthAddr_run Let_def)
      with Inr show ?thesis by blast
    qed
  qed
qed

lemma derivation_shape:
  assumes "D \<in> {KeyEthAddrBalance H a, KeyEthAddrNonce H a, KeyContractCode H a,
                 KeyContractStorage H a p}"
  obtains
    (single_fails) inp cap err where
      "H inp cap = Inl err"
      "D tr = (Inl err, tr @ [StringToh4Call HashPoseidonAllZeroes, PoseidonHashCall inp cap])"
  | (single_ok) inp cap r where
      "H inp cap = Inr r"
      "D tr = (Inr (h4ToFilledByteSlice (slice4 r)),
               tr @ [StringToh4Call HashPoseidonAllZeroes, PoseidonHashCall inp cap])"
  | (first_fails) inp err where
      "H inp (Arr4 0 0 0 0) = Inl err"
      "D tr = (Inl err, tr @ [PoseidonHashCall inp (Arr4 0 0 0 0)])"
  | (second_fails) inp hk0 inp' err where
      "H inp (Arr4 0 0 0 0) = Inr hk0" "H inp' hk0 = Inl err"
      "D tr = (Inl err, tr @ [PoseidonHashCall inp (Arr4 0 0 0 0), PoseidonHashCall inp' hk0])"
  | (both_ok) inp hk0 inp' r where
      "H inp (Arr4 0 0 0 0) = Inr hk0" "H inp' hk0 = Inr r"
      "D tr = (Inr (h4ToFilledByteSlice (slice4 r)),
               tr @ [PoseidonHashCall inp (Arr4 0 0 0 0), PoseidonHashCall inp' hk0])"
proof -
  from derivation_cases [OF assms, of tr]
  consider
    (A) inp cap where "D tr =
            (case H inp cap of Inl err \<Rightarrow> Inl err
                             | Inr r \<Rightarrow> Inr (h4ToFilledByteSlice (slice4 r)),
             tr @ [StringToh4Call HashPoseidonAllZeroes, PoseidonHashCall inp cap])"
  | (B) inp err where "H inp (Arr4 0 0 0 0) = Inl err"
            "D tr = (Inl err, tr @ [PoseidonHashCall inp (Arr4 0 0 0 0)])"
  | (C) inp hk0 inp' where "H inp (Arr4 0 0 0 0) = Inr hk0" "D tr =
            (case H inp' hk0 of Inl err \<Rightarrow> Inl err
                              | Inr r \<Rightarrow> Inr (h4ToFilledByteSlice (slice4 r)),
             tr @ [PoseidonHashCall inp (Arr4 0 0 0 0), PoseidonHashCall inp' hk0])"
    by blast
  then show thesis
  proof cases
    case A
    then show thesis
      by (cases "H inp cap") (auto intro: single_fails single_ok)
  next
    case B
    then show thesis by (rule first_fails)
  next
    case C
    then show thesis
      by (cases "H inp' hk0") (auto intro: second_fails both_ok)
  qed
qed

text \<open>Runs at the zero address, and the high slots of an encoded address.\<close>

lemma zeroAddress_slots:
  "i < 8 \<Longrightarrow> scalar2fea (SetBytes (Bytes zeroAddress)) ! i = 0"
  by (simp add: zeroAddress_def SetBytes_def scalar2fea_nth)

lemma keyEthAddr_zeroAddress:
  "keyEthAddr H zeroAddress lt cap tr =
     (case H (Arr8 0 0 0 0 0 0 (uint64_leafType lt) 0) cap of
        Inl err \<Rightarrow> Inl err
      | Inr result \<Rightarrow> Inr (h4ToFilledByteSlice (slice4 result)),
      tr @ [PoseidonHashCall (Arr8 0 0 0 0 0 0 (uint64_leafType lt) 0) cap])"
  by (simp add: keyEthAddr_run Let_def zeroAddress_slots)

lemma address_high_slots:
  assumes "5 \<le> i" "i < 8"
  shows "scalar2fea (SetBytes (Bytes a)) ! i = 0"
proof -
  define N where "N = nat \<bar>SetBytes (Bytes a)\<bar>"
  have "N < 2 ^ 160"
    using SetBytes_Address_less [of a] SetBytes_nonneg [of "Bytes a"] by (simp add: N_def)
  also have "(2::nat) ^ 160 \<le> 2 ^ (32 * i)"
    using assms by (intro power_increasing) simp_all
  finally have "N div 2 ^ (32 * i) = 0"
    by simp
  then show ?thesis
    using assms by (simp add: scalar2fea_nth N_def [symmetric])
qed

lemma KeyContractCode_stub_run:
  "KeyContractCode stubHash zeroAddress [] =
     (Inr [0x55, 0x42, 0x0B, 0xD9, 0xAE, 0x33, 0xCE, 0x5F,
           0x5E, 0xA3, 0x47, 0x35, 0x86, 0xA8, 0x2C, 0xC6,
           0xC4, 0x05, 0x5E, 0x33, 0x64, 0xA2, 0x46, 0xC3,
           0x3C, 0x18, 0xA9, 0x78, 0x6C, 0xB0, 0xB3, 0x59],
      [StringToh4Call HashPoseidonAllZeroes,
       PoseidonHashCall (Arr8 0 0 0 0 0 0 2 0)
         (Arr4 0xc71603f33a1144ca 0x7953db0ab48808f4 0xc4055e3364a246c3 0x3c18a9786cb0b359)])"
  by (simp add: KeyContractCode_def defaultCapIn_run keyEthAddr_zeroAddress stubHash_def
        h4ToFilledByteSlice_def uint64_be_bytes_def)

text \<open>Successful runs in terms of the two hash inputs, and what the absence of collisions
  gives.\<close>

lemma keyEthAddr_addrInput:
  "keyEthAddr H a lt cap tr =
     (case H (addrInput a lt) cap of
        Inl err \<Rightarrow> Inl err
      | Inr r \<Rightarrow> Inr (h4ToFilledByteSlice (slice4 r)),
      tr @ [PoseidonHashCall (addrInput a lt) cap])"
  by (simp add: keyEthAddr_run addrInput_def Let_def)

lemma KeyContractStorage_posInput:
  "KeyContractStorage H a p tr =
     (case H (posInput p) (Arr4 0 0 0 0) of
        Inl err \<Rightarrow> (Inl err, tr @ [PoseidonHashCall (posInput p) (Arr4 0 0 0 0)])
      | Inr hk0 \<Rightarrow>
          keyEthAddr H a leafTypeStorage hk0 (tr @ [PoseidonHashCall (posInput p) (Arr4 0 0 0 0)]))"
  by (simp add: KeyContractStorage_run posInput_def Let_def split: sum.splits)

lemma storage_success:
  assumes "fst (KeyContractStorage H a p tr) = Inr k"
  shows "\<exists>hk0 d. H (posInput p) (Arr4 0 0 0 0) = Inr hk0 \<and>
           H (addrInput a leafTypeStorage) hk0 = Inr d \<and>
           k = h4ToFilledByteSlice (slice4 d) \<and>
           snd (KeyContractStorage H a p tr) =
             tr @ [PoseidonHashCall (posInput p) (Arr4 0 0 0 0),
                   PoseidonHashCall (addrInput a leafTypeStorage) hk0]"
  using assms
  by (auto simp: KeyContractStorage_posInput keyEthAddr_addrInput split: sum.splits)

lemma single_success:
  assumes "(D, lt) \<in> {(KeyEthAddrBalance H a, leafTypeBalance), (KeyEthAddrNonce H a, leafTypeNonce),
                      (KeyContractCode H a, leafTypeCode)}"
    and "fst (D tr) = Inr k"
  shows "\<exists>cap d. H (addrInput a lt) cap = Inr d \<and> k = h4ToFilledByteSlice (slice4 d) \<and>
           snd (D tr) = tr @ [StringToh4Call HashPoseidonAllZeroes,
                              PoseidonHashCall (addrInput a lt) cap]"
  using assms
  by (auto simp: KeyEthAddrBalance_def KeyEthAddrNonce_def KeyContractCode_def defaultCapIn_run
        keyEthAddr_addrInput split: sum.splits)

lemma addrInput_tag: "addrInput a lt = addrInput a lt' \<Longrightarrow> lt = lt'"
  by (cases lt; cases lt') (simp_all add: addrInput_def Let_def)

lemma posInput_inj:
  assumes "length p \<le> 32" "length q \<le> 32" "posInput p = posInput q"
  shows "SetBytes p = SetBytes q"
proof (rule scalar2fea_inj)
  show "0 \<le> SetBytes p" "0 \<le> SetBytes q"
    by (rule SetBytes_nonneg)+
  show "SetBytes p < 2 ^ 256"
    using assms(1) by (rule SetBytes_less_256)
  show "SetBytes q < 2 ^ 256"
    using assms(2) by (rule SetBytes_less_256)
  fix i :: nat
  assume "i < 8"
  then have "i \<in> {0, 1, 2, 3, 4, 5, 6, 7}"
    by auto
  with assms(3) show "scalar2fea (SetBytes p) ! i = scalar2fea (SetBytes q) ! i"
    by (auto simp: posInput_def Let_def)
qed

lemma distinct_keys:
  assumes "no_collision H T"
    and "PoseidonHashCall inp cap \<in> set T" "PoseidonHashCall inp' cap' \<in> set T"
    and "H inp cap = Inr d" "H inp' cap' = Inr d'"
    and "h4ToFilledByteSlice (slice4 d) = h4ToFilledByteSlice (slice4 d')"
  shows "inp = inp' \<and> cap = cap'"
proof -
  from assms(6) have "d = d'"
    by (rule key_of_digest_inj)
  with assms(4,5) have "H inp cap = H inp' cap'"
    by simp
  with assms(1-3) show ?thesis
    unfolding no_collision_def by blast
qed

text \<open>Runs with the stand-in \<open>stubHash\<close> at the zero address.\<close>

lemma storage_stub_run_1:
  "KeyContractStorage stubHash zeroAddress [1] [] =
     (Inr [0, 0, 0, 0, 0, 0, 0, 7, 0, 0, 0, 0, 0, 0, 0, 3,
           0, 0, 0, 0, 0, 0, 0, 0, 0, 0, 0, 0, 0, 0, 0, 0],
      [PoseidonHashCall (Arr8 1 0 0 0 0 0 0 0) (Arr4 0 0 0 0),
       PoseidonHashCall (Arr8 0 0 0 0 0 0 3 0) (Arr4 2 0 0 0)])"
  by (simp add: KeyContractStorage_run keyEthAddr_zeroAddress Let_def SetBytes_def
        scalar2fea_nth stubHash_def h4ToFilledByteSlice_def uint64_be_bytes_def)

lemma storage_stub_run_2:
  "KeyContractStorage stubHash zeroAddress [2] [] =
     (Inr [0, 0, 0, 0, 0, 0, 0, 10, 0, 0, 0, 0, 0, 0, 0, 3,
           0, 0, 0, 0, 0, 0, 0, 0, 0, 0, 0, 0, 0, 0, 0, 0],
      [PoseidonHashCall (Arr8 2 0 0 0 0 0 0 0) (Arr4 0 0 0 0),
       PoseidonHashCall (Arr8 0 0 0 0 0 0 3 0) (Arr4 3 0 0 0)])"
  by (simp add: KeyContractStorage_run keyEthAddr_zeroAddress Let_def SetBytes_def
        scalar2fea_nth stubHash_def h4ToFilledByteSlice_def uint64_be_bytes_def)

lemma KeyEthAddrBalance_stub_run:
  "KeyEthAddrBalance stubHash zeroAddress [] =
     (Inr [0x55, 0x42, 0x0B, 0xD9, 0xAE, 0x33, 0xCE, 0x5F,
           0x5E, 0xA3, 0x47, 0x35, 0x86, 0xA8, 0x2C, 0xC4,
           0xC4, 0x05, 0x5E, 0x33, 0x64, 0xA2, 0x46, 0xC3,
           0x3C, 0x18, 0xA9, 0x78, 0x6C, 0xB0, 0xB3, 0x59],
      [StringToh4Call HashPoseidonAllZeroes,
       PoseidonHashCall (Arr8 0 0 0 0 0 0 0 0)
         (Arr4 0xc71603f33a1144ca 0x7953db0ab48808f4 0xc4055e3364a246c3 0x3c18a9786cb0b359)])"
  by (simp add: KeyEthAddrBalance_def defaultCapIn_run keyEthAddr_zeroAddress stubHash_def
        h4ToFilledByteSlice_def uint64_be_bytes_def)

lemma KeyEthAddrNonce_stub_run:
  "KeyEthAddrNonce stubHash zeroAddress [] =
     (Inr [0x55, 0x42, 0x0B, 0xD9, 0xAE, 0x33, 0xCE, 0x5F,
           0x5E, 0xA3, 0x47, 0x35, 0x86, 0xA8, 0x2C, 0xC5,
           0xC4, 0x05, 0x5E, 0x33, 0x64, 0xA2, 0x46, 0xC3,
           0x3C, 0x18, 0xA9, 0x78, 0x6C, 0xB0, 0xB3, 0x59],
      [StringToh4Call HashPoseidonAllZeroes,
       PoseidonHashCall (Arr8 0 0 0 0 0 0 1 0)
         (Arr4 0xc71603f33a1144ca 0x7953db0ab48808f4 0xc4055e3364a246c3 0x3c18a9786cb0b359)])"
  by (simp add: KeyEthAddrNonce_def defaultCapIn_run keyEthAddr_zeroAddress stubHash_def
        h4ToFilledByteSlice_def uint64_be_bytes_def)





section \<open>The claims\<close>

text \<open>
  C1. For every address, \<open>KeyEthAddrBalance\<close>, \<open>KeyEthAddrNonce\<close> and
  \<open>KeyContractCode\<close> call the hash primitive once, on the eight words
  \<open>[addrFE[0], addrFE[1], addrFE[2], addrFE[3], addrFE[4], 0, leafTag, 0]\<close>, where
  \<open>addrFE\<close> is the field-element encoding of the address and \<open>leafTag\<close> is 0 for balance,
  1 for nonce and 2 for code, with the default capacity (the value of \<open>defaultCapIn\<close>) as
  capacity; the result is the key of the digest, or the error of the hash primitive.
\<close>

theorem key1_layout:
  "\<exists>cap. fst (defaultCapIn tr) = Inr cap \<and>
     (let addrFE = scalar2fea (SetBytes (Bytes a));
          key1 = (\<lambda>leafTag. Arr8 (addrFE ! 0) (addrFE ! 1) (addrFE ! 2) (addrFE ! 3)
                                   (addrFE ! 4) 0 leafTag 0);
          key = (\<lambda>r. case r of Inl err \<Rightarrow> Inl err
                              | Inr result \<Rightarrow> Inr (h4ToFilledByteSlice (slice4 result)))
      in KeyEthAddrBalance H a tr =
           (key (H (key1 0) cap),
            tr @ [StringToh4Call HashPoseidonAllZeroes, PoseidonHashCall (key1 0) cap]) \<and>
         KeyEthAddrNonce H a tr =
           (key (H (key1 1) cap),
            tr @ [StringToh4Call HashPoseidonAllZeroes, PoseidonHashCall (key1 1) cap]) \<and>
         KeyContractCode H a tr =
           (key (H (key1 2) cap),
            tr @ [StringToh4Call HashPoseidonAllZeroes, PoseidonHashCall (key1 2) cap]))"
  by (simp add: KeyEthAddrBalance_def KeyEthAddrNonce_def KeyContractCode_def
        defaultCapIn_run keyEthAddr_run Let_def)

text \<open>
  C2. For every address and storage position, \<open>KeyContractStorage\<close> first calls the hash
  primitive on the eight slots of the encoding of the position with the all-zero capacity.
  When that call returns a digest \<open>hk0\<close>, it makes exactly one more call, on
  \<open>[addrFE[0..4], 0, 3, 0]\<close> with \<open>hk0\<close> as capacity, and no call of \<open>stringToh4\<close>:
  the default capacity is not used. (When the first call fails there is no \<open>hk0\<close>, and
  the derivation stops with that error.)
\<close>

theorem storage_two_stage:
  "(let posFE = scalar2fea (SetBytes p);
        posIn = Arr8 (posFE ! 0) (posFE ! 1) (posFE ! 2) (posFE ! 3)
                     (posFE ! 4) (posFE ! 5) (posFE ! 6) (posFE ! 7);
        zeroCapacity = Arr4 0 0 0 0;
        addrFE = scalar2fea (SetBytes (Bytes a));
        key1 = Arr8 (addrFE ! 0) (addrFE ! 1) (addrFE ! 2) (addrFE ! 3) (addrFE ! 4) 0 3 0
    in KeyContractStorage H a p tr =
         (case H posIn zeroCapacity of
            Inl err \<Rightarrow> (Inl err, tr @ [PoseidonHashCall posIn zeroCapacity])
          | Inr hk0 \<Rightarrow>
              (case H key1 hk0 of
                 Inl err \<Rightarrow> Inl err
               | Inr digest \<Rightarrow> Inr (h4ToFilledByteSlice (slice4 digest)),
               tr @ [PoseidonHashCall posIn zeroCapacity, PoseidonHashCall key1 hk0])))"
  by (simp add: KeyContractStorage_run keyEthAddr_run Let_def split: sum.splits)

text \<open>
  C3, as stated, fails: the storage position is read by \<open>SetBytes\<close> as a big-endian
  integer, so two distinct byte slices that differ in leading zero bytes give the same key.
\<close>

theorem leading_zero_counterexample:
  "[0, 1] \<noteq> ([1] :: byte list) \<and>
   fst (KeyContractStorage stubHash zeroAddress [0, 1] []) =
     Inr [0, 0, 0, 0, 0, 0, 0, 7, 0, 0, 0, 0, 0, 0, 0, 3,
           0, 0, 0, 0, 0, 0, 0, 0, 0, 0, 0, 0, 0, 0, 0, 0] \<and>
   fst (KeyContractStorage stubHash zeroAddress [1] []) =
     Inr [0, 0, 0, 0, 0, 0, 0, 7, 0, 0, 0, 0, 0, 0, 0, 3,
           0, 0, 0, 0, 0, 0, 0, 0, 0, 0, 0, 0, 0, 0, 0, 0]"
  by (simp add: KeyContractStorage_run keyEthAddr_zeroAddress Let_def SetBytes_def
        scalar2fea_nth stubHash_def h4ToFilledByteSlice_def uint64_be_bytes_def)

text \<open>
  C3, amended. For a fixed address and two storage positions of at most 32 bytes whose
  derivations succeed, and a hash primitive that answers the calls of the two runs without
  collision, the two keys are equal exactly when the positions are the same big-endian
  integer: positions with distinct integer values have distinct keys, and byte slices of the
  same integer have the same key.
\<close>

theorem storage_position_separation:
  assumes "length p \<le> 32" "length q \<le> 32"
    and "fst (KeyContractStorage H a p []) = Inr kp"
    and "fst (KeyContractStorage H a q []) = Inr kq"
    and "no_collision H (snd (KeyContractStorage H a p []) @ snd (KeyContractStorage H a q []))"
  shows "kp = kq \<longleftrightarrow> SetBytes p = SetBytes q"
proof
  assume "SetBytes p = SetBytes q"
  then have "KeyContractStorage H a p [] = KeyContractStorage H a q []"
    by (simp add: KeyContractStorage_def)
  with assms(3,4) show "kp = kq"
    by simp
next
  assume eq: "kp = kq"
  let ?T = "snd (KeyContractStorage H a p []) @ snd (KeyContractStorage H a q [])"
  from storage_success [OF assms(3)] obtain hp dp where
    p: "H (posInput p) (Arr4 0 0 0 0) = Inr hp" "H (addrInput a leafTypeStorage) hp = Inr dp"
      "kp = h4ToFilledByteSlice (slice4 dp)"
      "snd (KeyContractStorage H a p []) =
         [] @ [PoseidonHashCall (posInput p) (Arr4 0 0 0 0),
               PoseidonHashCall (addrInput a leafTypeStorage) hp]"
    by blast
  from storage_success [OF assms(4)] obtain hq dq where
    q: "H (posInput q) (Arr4 0 0 0 0) = Inr hq" "H (addrInput a leafTypeStorage) hq = Inr dq"
      "kq = h4ToFilledByteSlice (slice4 dq)"
      "snd (KeyContractStorage H a q []) =
         [] @ [PoseidonHashCall (posInput q) (Arr4 0 0 0 0),
               PoseidonHashCall (addrInput a leafTypeStorage) hq]"
    by blast
  have m: "PoseidonHashCall (posInput p) (Arr4 0 0 0 0) \<in> set ?T"
      "PoseidonHashCall (addrInput a leafTypeStorage) hp \<in> set ?T"
      "PoseidonHashCall (posInput q) (Arr4 0 0 0 0) \<in> set ?T"
      "PoseidonHashCall (addrInput a leafTypeStorage) hq \<in> set ?T"
    by (simp_all add: p(4) q(4))
  have "hp = hq"
    using distinct_keys [OF assms(5) m(2) m(4) p(2) q(2)] eq p(3) q(3) by simp
  with p(1) q(1) have "H (posInput p) (Arr4 0 0 0 0) = H (posInput q) (Arr4 0 0 0 0)"
    by simp
  with assms(5) m(1) m(3) have "posInput p = posInput q"
    unfolding no_collision_def by blast
  with assms(1,2) show "SetBytes p = SetBytes q"
    by (rule posInput_inj)
qed

theorem storage_position_separation_witness:
  "fst (KeyContractStorage stubHash zeroAddress [1] []) \<noteq>
   fst (KeyContractStorage stubHash zeroAddress [2] [])"
proof -
  have l: "length ([1] :: byte list) \<le> 32" "length ([2] :: byte list) \<le> 32"
    by simp_all
  have k1: "fst (KeyContractStorage stubHash zeroAddress [1] []) =
      Inr [0, 0, 0, 0, 0, 0, 0, 7, 0, 0, 0, 0, 0, 0, 0, 3,
           0, 0, 0, 0, 0, 0, 0, 0, 0, 0, 0, 0, 0, 0, 0, 0]"
    by (simp add: storage_stub_run_1)
  have k2: "fst (KeyContractStorage stubHash zeroAddress [2] []) =
      Inr [0, 0, 0, 0, 0, 0, 0, 10, 0, 0, 0, 0, 0, 0, 0, 3,
           0, 0, 0, 0, 0, 0, 0, 0, 0, 0, 0, 0, 0, 0, 0, 0]"
    by (simp add: storage_stub_run_2)
  have nc: "no_collision stubHash
      (snd (KeyContractStorage stubHash zeroAddress [1] []) @
       snd (KeyContractStorage stubHash zeroAddress [2] []))"
    unfolding no_collision_def
    by (auto simp: storage_stub_run_1 storage_stub_run_2 stubHash_def)
  have "SetBytes [1] \<noteq> SetBytes [2]"
    by (simp add: SetBytes_def)
  with storage_position_separation [OF l k1 k2 nc] show ?thesis
    by (simp add: k1 k2)
qed



text \<open>
  C5, as stated, fails: the default capacity is not cached. Two derivations in a row, from
  the empty trace, parse the constant twice.
\<close>

theorem capacity_recomputed_counterexample:
  "snd (KeyEthAddrBalance stubHash zeroAddress
          (snd (KeyEthAddrBalance stubHash zeroAddress []))) =
     [StringToh4Call HashPoseidonAllZeroes,
      PoseidonHashCall (Arr8 0 0 0 0 0 0 0 0)
        (Arr4 0xc71603f33a1144ca 0x7953db0ab48808f4 0xc4055e3364a246c3 0x3c18a9786cb0b359),
      StringToh4Call HashPoseidonAllZeroes,
      PoseidonHashCall (Arr8 0 0 0 0 0 0 0 0)
        (Arr4 0xc71603f33a1144ca 0x7953db0ab48808f4 0xc4055e3364a246c3 0x3c18a9786cb0b359)]"
  by (simp add: KeyEthAddrBalance_def defaultCapIn_run keyEthAddr_zeroAddress)

text \<open>
  C5, amended. \<open>KeyEthAddrBalance\<close>, \<open>KeyEthAddrNonce\<close> and \<open>KeyContractCode\<close> compute
  the default capacity on every call: each run calls \<open>stringToh4\<close> on the constant
  \<open>HashPoseidonAllZeroes\<close> exactly once, before its hash call. Every such call yields the
  same four words, which are the capacity of the hash call.
\<close>

theorem capacity_parsed_every_call:
  "\<exists>cap. \<forall>tr H a.
     defaultCapIn tr = (Inr cap, tr @ [StringToh4Call HashPoseidonAllZeroes]) \<and>
     (\<exists>inp. snd (KeyEthAddrBalance H a tr) =
        tr @ [StringToh4Call HashPoseidonAllZeroes, PoseidonHashCall inp cap]) \<and>
     (\<exists>inp. snd (KeyEthAddrNonce H a tr) =
        tr @ [StringToh4Call HashPoseidonAllZeroes, PoseidonHashCall inp cap]) \<and>
     (\<exists>inp. snd (KeyContractCode H a tr) =
        tr @ [StringToh4Call HashPoseidonAllZeroes, PoseidonHashCall inp cap])"
  by (simp add: KeyEthAddrBalance_def KeyEthAddrNonce_def KeyContractCode_def
        defaultCapIn_run keyEthAddr_run Let_def)

text \<open>
  C6. For a non-negative integer, the bytes that \<open>scalar2fea\<close> splits are its big-endian
  representation; the groups, most-significant first, make up those bytes again; every group
  has between one and four bytes and all but the most-significant one have four; a slot is
  the big-endian value of its group, the least-significant group in slot 0, and a slot
  without a group is zero. Hence slot \<open>i\<close> is the \<open>i\<close>-th digit of the integer in base
  \<open>2^32\<close>, and every one of the eight slots is below \<open>2^32\<close>.
\<close>

theorem field_encoding:
  assumes "0 \<le> val"
  shows "(let bs = BigInt_Bytes val; gs = split_groups bs; fea = scalar2fea val
          in SetBytes bs = val \<and> concat (rev gs) = bs \<and>
             (\<forall>i < length gs.
                0 < length (gs ! i) \<and> length (gs ! i) \<le> 4 \<and>
                (Suc i < length gs \<longrightarrow> length (gs ! i) = 4) \<and>
                uint (be_uint32 (gs ! i)) = SetBytes (gs ! i)) \<and>
             length fea = 8 \<and>
             (\<forall>i < 8.
                fea ! i = (if i < length gs then be_uint32 (gs ! i) else 0) \<and>
                uint (fea ! i) = (val div 2 ^ (32 * i)) mod 2 ^ 32 \<and>
                fea ! i < 2 ^ 32))"
proof -
  define gs where "gs = split_groups (BigInt_Bytes val)"
  have f1: "SetBytes (BigInt_Bytes val) = val"
    using assms by (simp add: SetBytes_BigInt_Bytes)
  have f2: "concat (rev gs) = BigInt_Bytes val"
    by (simp add: gs_def concat_rev_split_groups)
  have f3: "0 < length (gs ! i) \<and> length (gs ! i) \<le> 4 \<and>
      (Suc i < length gs \<longrightarrow> length (gs ! i) = 4) \<and>
      uint (be_uint32 (gs ! i)) = SetBytes (gs ! i)" if "i < length gs" for i
  proof -
    have "0 < length (gs ! i) \<and> length (gs ! i) \<le> 4 \<and>
        (Suc i < length gs \<longrightarrow> length (gs ! i) = 4)"
      using that groups4_lengths [of i "rev (BigInt_Bytes val)"]
      by (simp add: gs_def split_groups_def)
    then show ?thesis
      by (simp add: uint_be_uint32)
  qed
  have f4: "length (scalar2fea val) = 8"
    by (rule length_scalar2fea)
  have f5: "scalar2fea val ! i = (if i < length gs then be_uint32 (gs ! i) else 0) \<and>
      uint (scalar2fea val ! i) = (val div 2 ^ (32 * i)) mod 2 ^ 32 \<and>
      scalar2fea val ! i < 2 ^ 32" if "i < 8" for i
    using that assms scalar2fea_slot_group [of i val] uint_scalar2fea_nth [of i val]
      scalar2fea_slot_less [of i val]
    by (simp only: gs_def)
  show ?thesis
    unfolding Let_def gs_def [symmetric]
    using f1 f2 f3 f4 f5 by blast
qed

theorem field_encoding_witness:
  "SetBytes (BigInt_Bytes 4294967301) = 4294967301 \<and>
   length (split_groups (BigInt_Bytes 4294967301) ! 0) = 4 \<and>
   scalar2fea 4294967301 ! 0 = 5 \<and> scalar2fea 4294967301 ! 1 = 1 \<and>
   scalar2fea 4294967301 ! 2 = 0 \<and> length (scalar2fea 4294967301) = 8"
proof -
  have h: "(0::int) \<le> 4294967301" by simp
  have gs: "split_groups (BigInt_Bytes 4294967301) = [[0, 0, 0, 5], [1]]"
    by (simp add: split_groups_def BigInt_Bytes_def nat_le_bytes.simps)
  from field_encoding [OF h]
  have b: "SetBytes (BigInt_Bytes 4294967301) = 4294967301"
    and g: "\<forall>i < length (split_groups (BigInt_Bytes 4294967301)).
        Suc i < length (split_groups (BigInt_Bytes 4294967301)) \<longrightarrow>
        length (split_groups (BigInt_Bytes 4294967301) ! i) = 4"
    and d: "\<forall>i < 8. uint (scalar2fea 4294967301 ! i) = (4294967301 div 2 ^ (32 * i)) mod 2 ^ 32"
    and l: "length (scalar2fea 4294967301) = 8"
    unfolding Let_def by blast+
  have "length (split_groups (BigInt_Bytes 4294967301) ! 0) = 4"
    using g [rule_format, of 0] by (simp add: gs)
  moreover have "uint (scalar2fea 4294967301 ! 0) = 5"
    using d [rule_format, of 0] by simp
  moreover have "uint (scalar2fea 4294967301 ! 1) = 1"
    using d [rule_format, of 1] by simp
  moreover have "uint (scalar2fea 4294967301 ! 2) = 0"
    using d [rule_format, of 2] by simp
  ultimately show ?thesis
    using b l by (simp add: word_uint_eq_iff)
qed

text \<open>
  C7. For every address and every storage position, when the four derivations succeed and
  the hash primitive answers their calls without collision, the keys of balance, nonce, code
  and storage are pairwise distinct: the four inputs of the final hash calls differ in slot 6,
  which holds the tag of the leaf type.
\<close>

theorem leaf_type_separation:
  assumes "fst (KeyEthAddrBalance H a []) = Inr kb"
    and "fst (KeyEthAddrNonce H a []) = Inr kn"
    and "fst (KeyContractCode H a []) = Inr kc"
    and "fst (KeyContractStorage H a p []) = Inr ks"
    and "no_collision H
           (snd (KeyEthAddrBalance H a []) @ snd (KeyEthAddrNonce H a []) @
            snd (KeyContractCode H a []) @ snd (KeyContractStorage H a p []))"
  shows "distinct [kb, kn, kc, ks]"
proof -
  let ?T = "snd (KeyEthAddrBalance H a []) @ snd (KeyEthAddrNonce H a []) @
            snd (KeyContractCode H a []) @ snd (KeyContractStorage H a p [])"
  from single_success [of "KeyEthAddrBalance H a" leafTypeBalance H a "[]" kb] assms(1)
  obtain cb db where b: "H (addrInput a leafTypeBalance) cb = Inr db"
      "kb = h4ToFilledByteSlice (slice4 db)"
      "PoseidonHashCall (addrInput a leafTypeBalance) cb \<in> set (snd (KeyEthAddrBalance H a []))"
    by auto
  from single_success [of "KeyEthAddrNonce H a" leafTypeNonce H a "[]" kn] assms(2)
  obtain cn dn where n: "H (addrInput a leafTypeNonce) cn = Inr dn"
      "kn = h4ToFilledByteSlice (slice4 dn)"
      "PoseidonHashCall (addrInput a leafTypeNonce) cn \<in> set (snd (KeyEthAddrNonce H a []))"
    by auto
  from single_success [of "KeyContractCode H a" leafTypeCode H a "[]" kc] assms(3)
  obtain cc dc where c: "H (addrInput a leafTypeCode) cc = Inr dc"
      "kc = h4ToFilledByteSlice (slice4 dc)"
      "PoseidonHashCall (addrInput a leafTypeCode) cc \<in> set (snd (KeyContractCode H a []))"
    by auto
  from storage_success [OF assms(4)]
  obtain cs ds where s: "H (addrInput a leafTypeStorage) cs = Inr ds"
      "ks = h4ToFilledByteSlice (slice4 ds)"
      "PoseidonHashCall (addrInput a leafTypeStorage) cs \<in> set (snd (KeyContractStorage H a p []))"
    by auto
  have m: "PoseidonHashCall (addrInput a leafTypeBalance) cb \<in> set ?T"
      "PoseidonHashCall (addrInput a leafTypeNonce) cn \<in> set ?T"
      "PoseidonHashCall (addrInput a leafTypeCode) cc \<in> set ?T"
      "PoseidonHashCall (addrInput a leafTypeStorage) cs \<in> set ?T"
    using b(3) n(3) c(3) s(3) by simp_all
  have sep: "h4ToFilledByteSlice (slice4 d) \<noteq> h4ToFilledByteSlice (slice4 d')"
    if "PoseidonHashCall (addrInput a lt) cap \<in> set ?T"
      "PoseidonHashCall (addrInput a lt') cap' \<in> set ?T"
      "H (addrInput a lt) cap = Inr d" "H (addrInput a lt') cap' = Inr d'" "lt \<noteq> lt'"
    for lt lt' cap cap' d d'
  proof
    assume "h4ToFilledByteSlice (slice4 d) = h4ToFilledByteSlice (slice4 d')"
    with distinct_keys [OF assms(5) that(1,2,3,4)] have "addrInput a lt = addrInput a lt'"
      by simp
    then have "lt = lt'"
      by (rule addrInput_tag)
    with that(5) show False by simp
  qed
  have "kb \<noteq> kn" "kb \<noteq> kc" "kb \<noteq> ks" "kn \<noteq> kc" "kn \<noteq> ks" "kc \<noteq> ks"
    unfolding b(2) n(2) c(2) s(2)
    using sep [OF m(1) m(2) b(1) n(1)] sep [OF m(1) m(3) b(1) c(1)] sep [OF m(1) m(4) b(1) s(1)]
      sep [OF m(2) m(3) n(1) c(1)] sep [OF m(2) m(4) n(1) s(1)] sep [OF m(3) m(4) c(1) s(1)]
    by simp_all
  then show ?thesis
    by simp
qed

theorem leaf_type_separation_witness:
  "distinct
     [[0x55, 0x42, 0x0B, 0xD9, 0xAE, 0x33, 0xCE, 0x5F,
           0x5E, 0xA3, 0x47, 0x35, 0x86, 0xA8, 0x2C, 0xC4,
           0xC4, 0x05, 0x5E, 0x33, 0x64, 0xA2, 0x46, 0xC3,
           0x3C, 0x18, 0xA9, 0x78, 0x6C, 0xB0, 0xB3, 0x59],
      [0x55, 0x42, 0x0B, 0xD9, 0xAE, 0x33, 0xCE, 0x5F,
           0x5E, 0xA3, 0x47, 0x35, 0x86, 0xA8, 0x2C, 0xC5,
           0xC4, 0x05, 0x5E, 0x33, 0x64, 0xA2, 0x46, 0xC3,
           0x3C, 0x18, 0xA9, 0x78, 0x6C, 0xB0, 0xB3, 0x59],
      [0x55, 0x42, 0x0B, 0xD9, 0xAE, 0x33, 0xCE, 0x5F,
           0x5E, 0xA3, 0x47, 0x35, 0x86, 0xA8, 0x2C, 0xC6,
           0xC4, 0x05, 0x5E, 0x33, 0x64, 0xA2, 0x46, 0xC3,
           0x3C, 0x18, 0xA9, 0x78, 0x6C, 0xB0, 0xB3, 0x59],
      [0, 0, 0, 0, 0, 0, 0, 7, 0, 0, 0, 0, 0, 0, 0, 3,
           0, 0, 0, 0, 0, 0, 0, 0, 0, 0, 0, 0, 0, 0, 0, 0] :: byte list]"
proof -
  have kb: "fst (KeyEthAddrBalance stubHash zeroAddress []) =
      Inr [0x55, 0x42, 0x0B, 0xD9, 0xAE, 0x33, 0xCE, 0x5F,
           0x5E, 0xA3, 0x47, 0x35, 0x86, 0xA8, 0x2C, 0xC4,
           0xC4, 0x05, 0x5E, 0x33, 0x64, 0xA2, 0x46, 0xC3,
           0x3C, 0x18, 0xA9, 0x78, 0x6C, 0xB0, 0xB3, 0x59]"
    by (simp add: KeyEthAddrBalance_stub_run)
  have kn: "fst (KeyEthAddrNonce stubHash zeroAddress []) =
      Inr [0x55, 0x42, 0x0B, 0xD9, 0xAE, 0x33, 0xCE, 0x5F,
           0x5E, 0xA3, 0x47, 0x35, 0x86, 0xA8, 0x2C, 0xC5,
           0xC4, 0x05, 0x5E, 0x33, 0x64, 0xA2, 0x46, 0xC3,
           0x3C, 0x18, 0xA9, 0x78, 0x6C, 0xB0, 0xB3, 0x59]"
    by (simp add: KeyEthAddrNonce_stub_run)
  have kc: "fst (KeyContractCode stubHash zeroAddress []) =
      Inr [0x55, 0x42, 0x0B, 0xD9, 0xAE, 0x33, 0xCE, 0x5F,
           0x5E, 0xA3, 0x47, 0x35, 0x86, 0xA8, 0x2C, 0xC6,
           0xC4, 0x05, 0x5E, 0x33, 0x64, 0xA2, 0x46, 0xC3,
           0x3C, 0x18, 0xA9, 0x78, 0x6C, 0xB0, 0xB3, 0x59]"
    by (simp add: KeyContractCode_stub_run)
  have ks: "fst (KeyContractStorage stubHash zeroAddress [1] []) =
      Inr [0, 0, 0, 0, 0, 0, 0, 7, 0, 0, 0, 0, 0, 0, 0, 3,
           0, 0, 0, 0, 0, 0, 0, 0, 0, 0, 0, 0, 0, 0, 0, 0]"
    by (simp add: storage_stub_run_1)
  have nc: "no_collision stubHash
      (snd (KeyEthAddrBalance stubHash zeroAddress []) @
       snd (KeyEthAddrNonce stubHash zeroAddress []) @
       snd (KeyContractCode stubHash zeroAddress []) @
       snd (KeyContractStorage stubHash zeroAddress [1] []))"
    unfolding no_collision_def
    by (auto simp: KeyEthAddrBalance_stub_run KeyEthAddrNonce_stub_run KeyContractCode_stub_run
          storage_stub_run_1 stubHash_def)
  from leaf_type_separation [OF kb kn kc ks nc] show ?thesis .
qed

text \<open>
  C8. In each of the four derivations, when the hash primitive returns an error to a call,
  the derivation returns exactly that error, and the failing call stands at the last position
  of the run: no event follows it, so nothing is retried, and a run has at most two events.
  The result is either a key of 32 bytes or an error that the hash primitive returned to one
  of the calls of the run.
\<close>

theorem oracle_error_propagated:
  assumes "D \<in> {KeyEthAddrBalance H a, KeyEthAddrNonce H a, KeyContractCode H a,
                 KeyContractStorage H a p}"
  shows "\<exists>evs. snd (D tr) = tr @ evs \<and>
           (\<forall>inp cap err. PoseidonHashCall inp cap \<in> set evs \<and> H inp cap = Inl err \<longrightarrow>
              fst (D tr) = Inl err \<and> last evs = PoseidonHashCall inp cap) \<and>
           (\<forall>i inp cap err.
              i < length evs \<and> evs ! i = PoseidonHashCall inp cap \<and> H inp cap = Inl err \<longrightarrow>
              Suc i = length evs) \<and>
           length evs \<le> 2 \<and>
           (case fst (D tr) of
              Inr key \<Rightarrow> length key = 32
            | Inl err \<Rightarrow> \<exists>inp cap. PoseidonHashCall inp cap \<in> set evs \<and> H inp cap = Inl err)"
  using assms
proof (cases rule: derivation_shape [where tr = tr])
  case single_fails
  then show ?thesis by (auto simp: less_Suc_eq nth_Cons')
next
  case single_ok
  then show ?thesis by (auto simp: length_h4ToFilledByteSlice_slice4 less_Suc_eq nth_Cons')
next
  case first_fails
  then show ?thesis by (auto simp: less_Suc_eq nth_Cons')
next
  case second_fails
  then show ?thesis by (auto simp: less_Suc_eq nth_Cons')
next
  case both_ok
  then show ?thesis by (auto simp: length_h4ToFilledByteSlice_slice4 less_Suc_eq nth_Cons')
qed

theorem oracle_error_propagated_witness:
  "fst (KeyEthAddrBalance failingHash zeroAddress []) = Inl ''hash fault'' \<and>
   length (snd (KeyEthAddrBalance failingHash zeroAddress [])) = 2"
proof -
  let ?cap = "Arr4 0xc71603f33a1144ca 0x7953db0ab48808f4 0xc4055e3364a246c3 0x3c18a9786cb0b359"
  have m: "KeyEthAddrBalance failingHash zeroAddress \<in>
      {KeyEthAddrBalance failingHash zeroAddress, KeyEthAddrNonce failingHash zeroAddress,
       KeyContractCode failingHash zeroAddress, KeyContractStorage failingHash zeroAddress []}"
    by simp
  from oracle_error_propagated [OF m, of "[]"]
  obtain evs where e: "snd (KeyEthAddrBalance failingHash zeroAddress []) = [] @ evs"
    and i: "\<forall>inp cap err.
        PoseidonHashCall inp cap \<in> set evs \<and> failingHash inp cap = Inl err \<longrightarrow>
        fst (KeyEthAddrBalance failingHash zeroAddress []) = Inl err \<and>
        last evs = PoseidonHashCall inp cap"
    and j: "\<forall>i inp cap err.
        i < length evs \<and> evs ! i = PoseidonHashCall inp cap \<and> failingHash inp cap = Inl err \<longrightarrow>
        Suc i = length evs"
    by blast
  have s: "snd (KeyEthAddrBalance failingHash zeroAddress []) =
      [StringToh4Call HashPoseidonAllZeroes, PoseidonHashCall (Arr8 0 0 0 0 0 0 0 0) ?cap]"
    by (simp add: KeyEthAddrBalance_def defaultCapIn_run keyEthAddr_zeroAddress)
  with e have evs: "evs =
      [StringToh4Call HashPoseidonAllZeroes, PoseidonHashCall (Arr8 0 0 0 0 0 0 0 0) ?cap]"
    by simp
  have f: "failingHash (Arr8 0 0 0 0 0 0 0 0) ?cap = Inl ''hash fault''"
    by (simp add: failingHash_def)
  have "PoseidonHashCall (Arr8 0 0 0 0 0 0 0 0) ?cap \<in> set evs"
    by (simp add: evs)
  with i f have r: "fst (KeyEthAddrBalance failingHash zeroAddress []) = Inl ''hash fault''"
    by blast
  have "1 < length evs \<and> evs ! 1 = PoseidonHashCall (Arr8 0 0 0 0 0 0 0 0) ?cap"
    by (simp add: evs)
  with j f have "Suc 1 = length evs"
    by blast
  with e r show ?thesis
    by simp
qed

text \<open>
  C9. When one of the four derivations succeeds, the key has 32 bytes: it is the
  concatenation of the four words of the digest that the last hash call of the run returned,
  each written as 8 bytes which, read as a big-endian integer, give the word back.
\<close>

theorem key_is_digest_bytes:
  assumes "D \<in> {KeyEthAddrBalance H a, KeyEthAddrNonce H a, KeyContractCode H a,
                 KeyContractStorage H a p}"
    and "fst (D tr) = Inr key"
  shows "length key = 32 \<and>
         (\<exists>inp cap w0 w1 w2 w3.
            last (snd (D tr)) = PoseidonHashCall inp cap \<and>
            H inp cap = Inr (Arr4 w0 w1 w2 w3) \<and>
            key = uint64_be_bytes w0 @ uint64_be_bytes w1 @ uint64_be_bytes w2 @
                  uint64_be_bytes w3 \<and>
            (\<forall>w. length (uint64_be_bytes w) = 8 \<and> SetBytes (uint64_be_bytes w) = uint w))"
  using assms(1)
proof (cases rule: derivation_shape [where tr = tr])
  case (single_ok inp cap r)
  obtain w0 w1 w2 w3 where "r = Arr4 w0 w1 w2 w3" by (cases r)
  with single_ok assms(2) show ?thesis
    by (auto simp: h4ToFilledByteSlice_def length_uint64_be_bytes SetBytes_uint64_be_bytes)
next
  case (both_ok inp hk0 inp' r)
  obtain w0 w1 w2 w3 where "r = Arr4 w0 w1 w2 w3" by (cases r)
  with both_ok assms(2) show ?thesis
    by (auto simp: h4ToFilledByteSlice_def length_uint64_be_bytes SetBytes_uint64_be_bytes)
qed (use assms(2) in auto)

theorem key_is_digest_bytes_witness:
  "\<exists>w0 w1 w2 w3.
     stubHash (Arr8 0 0 0 0 0 0 2 0)
       (Arr4 0xc71603f33a1144ca 0x7953db0ab48808f4 0xc4055e3364a246c3 0x3c18a9786cb0b359) =
       Inr (Arr4 w0 w1 w2 w3) \<and>
     [0x55, 0x42, 0x0B, 0xD9, 0xAE, 0x33, 0xCE, 0x5F,
      0x5E, 0xA3, 0x47, 0x35, 0x86, 0xA8, 0x2C, 0xC6,
      0xC4, 0x05, 0x5E, 0x33, 0x64, 0xA2, 0x46, 0xC3,
      0x3C, 0x18, 0xA9, 0x78, 0x6C, 0xB0, 0xB3, 0x59] =
       uint64_be_bytes w0 @ uint64_be_bytes w1 @ uint64_be_bytes w2 @ uint64_be_bytes w3"
proof -
  have m: "KeyContractCode stubHash zeroAddress \<in>
      {KeyEthAddrBalance stubHash zeroAddress, KeyEthAddrNonce stubHash zeroAddress,
       KeyContractCode stubHash zeroAddress, KeyContractStorage stubHash zeroAddress []}"
    by simp
  have k: "fst (KeyContractCode stubHash zeroAddress []) =
      Inr [0x55, 0x42, 0x0B, 0xD9, 0xAE, 0x33, 0xCE, 0x5F,
           0x5E, 0xA3, 0x47, 0x35, 0x86, 0xA8, 0x2C, 0xC6,
           0xC4, 0x05, 0x5E, 0x33, 0x64, 0xA2, 0x46, 0xC3,
           0x3C, 0x18, 0xA9, 0x78, 0x6C, 0xB0, 0xB3, 0x59]"
    by (simp add: KeyContractCode_stub_run)
  from key_is_digest_bytes [OF m k] show ?thesis
    by (auto simp: KeyContractCode_stub_run)
qed

text \<open>
  C10. The address is an array of twenty bytes, so the integer that \<open>keyEthAddr\<close> encodes
  is never negative and always below \<open>2^160\<close>; its encoding has eight slots, of which the
  last three are zero, and the encoding cannot fail. When one of the four derivations returns
  an error, the error comes from parsing the capacity constant or was returned by the hash
  primitive to a call of the run.
\<close>

theorem address_encoding_total:
  "0 \<le> SetBytes (Bytes a) \<and> SetBytes (Bytes a) < 2 ^ 160 \<and>
   length (scalar2fea (SetBytes (Bytes a))) = 8 \<and>
   scalar2fea (SetBytes (Bytes a)) ! 5 = 0 \<and> scalar2fea (SetBytes (Bytes a)) ! 6 = 0 \<and>
   scalar2fea (SetBytes (Bytes a)) ! 7 = 0 \<and>
   (\<forall>D \<in> {KeyEthAddrBalance H a, KeyEthAddrNonce H a, KeyContractCode H a,
            KeyContractStorage H a p}.
      \<forall>err. fst (D tr) = Inl err \<longrightarrow>
        fst (defaultCapIn tr) = Inl err \<or>
        (\<exists>evs inp cap. snd (D tr) = tr @ evs \<and> PoseidonHashCall inp cap \<in> set evs \<and>
           H inp cap = Inl err))"
proof -
  have "\<exists>evs inp cap. snd (D tr) = tr @ evs \<and> PoseidonHashCall inp cap \<in> set evs \<and>
           H inp cap = Inl err"
    if "D \<in> {KeyEthAddrBalance H a, KeyEthAddrNonce H a, KeyContractCode H a,
              KeyContractStorage H a p}" and "fst (D tr) = Inl err" for D err
    using that(1)
  proof (cases rule: derivation_shape [where tr = tr])
    case single_fails
    with that(2) show ?thesis by auto
  next
    case first_fails
    with that(2) show ?thesis by auto
  next
    case second_fails
    with that(2) show ?thesis by auto
  qed (use that(2) in auto)
  then show ?thesis
    using SetBytes_Address_less [of a]
    by (simp add: SetBytes_nonneg length_scalar2fea address_high_slots)
qed

theorem address_encoding_total_witness:
  "\<exists>evs inp cap. snd (KeyEthAddrNonce failingHash zeroAddress []) = [] @ evs \<and>
     PoseidonHashCall inp cap \<in> set evs \<and> failingHash inp cap = Inl ''hash fault''"
proof -
  have f: "fst (KeyEthAddrNonce failingHash zeroAddress []) = Inl ''hash fault''"
    by (simp add: KeyEthAddrNonce_def defaultCapIn_run keyEthAddr_zeroAddress failingHash_def)
  have d: "fst (defaultCapIn []) \<noteq> Inl ''hash fault''"
    by (simp add: defaultCapIn_run)
  have m: "KeyEthAddrNonce failingHash zeroAddress \<in>
      {KeyEthAddrBalance failingHash zeroAddress, KeyEthAddrNonce failingHash zeroAddress,
       KeyContractCode failingHash zeroAddress, KeyContractStorage failingHash zeroAddress []}"
    by simp
  from address_encoding_total [of zeroAddress failingHash "[]" "[]"] m f d show ?thesis
    by blast
qed

end
